theory Spec2Isabelle
  imports Main
begin

section \<open>The backend loader of \<open>function_table_initializer.hpp\<close>\<close>

text \<open>
  The class \<open>table_initializer<domain_id, function_table_t>\<close> keeps two maps,
  \<open>tables\<close> and \<open>handles\<close>, keyed by device. Its \<open>operator[]\<close> returns the cached
  table of a device or calls \<open>add_table\<close>, which opens the first candidate library
  that loads, resolves the table symbol of the domain, checks the version stamp and
  stores handle and table.

  The embedding passes the state explicitly. Exceptions are the left summand of the
  result. The calls into the platform loader (\<open>dlopen\<close>, \<open>dlsym\<close>, \<open>dlclose\<close>,
  \<open>dlerror\<close>), the writes to \<open>std::cerr\<close> and the two cache stores are recorded, in
  program order, in a trace that is part of the state.
\<close>

subsection \<open>Data\<close>

text \<open>
  Modelled from the spec: the enumeration \<open>oneapi::math::device\<close> is declared in a
  header that is not part of the sources. The spec gives it one special value,
  \<open>generic_device\<close>, next to the specialised targets.
\<close>

datatype device = generic_device | specific_device nat

text \<open>\<open>sycl::queue\<close> is external; \<open>add_table\<close> only calls \<open>q.get_device()\<close>.\<close>

type_synonym sycl_device = nat

record queue =
  get_device :: sycl_device
  queue_id :: nat

text \<open>
  \<open>function_table_t\<close> is the template parameter: a struct whose field \<open>version\<close> is
  read by \<open>add_table\<close>; the function pointers after it are opaque to the loader.
\<close>

record function_table =
  version :: int
  pointers :: "nat list"

definition SPEC_VERSION :: int where
  "SPEC_VERSION = 1"

text \<open>
  \<open>LIB_TYPE\<close> is \<open>void*\<close>; the null handle and the null pointer are \<open>None\<close>.
  \<open>table_ptr\<close> is the address \<open>dlsym\<close> returns, a location inside the plugin image.
\<close>

type_synonym LIB_TYPE = nat
type_synonym table_ptr = nat

text \<open>
  The platform loader, as a stub: which names open and to which handle, which symbols a
  loaded library exports, what lies at an exported address, and the text \<open>dlerror\<close>
  reports for a failed call.
\<close>

record platform =
  dlopen :: "string \<Rightarrow> LIB_TYPE option"
  dlsym :: "LIB_TYPE \<Rightarrow> string \<Rightarrow> table_ptr option"
  table_at :: "table_ptr \<Rightarrow> function_table"
  dlopen_error :: "string \<Rightarrow> string"
  dlsym_error :: "LIB_TYPE \<Rightarrow> string \<Rightarrow> string"

text \<open>
  What is fixed when the class is instantiated: the constant
  \<open>is_generic_device_supported\<close> (set by the preprocessor) and \<open>table_names[domain_id]\<close>,
  the symbol name of the domain (its table is declared outside the sources).
\<close>

record build =
  is_generic_device_supported :: bool
  table_name :: string

datatype error =
    unsupported_device string string sycl_device
  | backend_not_found
  | function_not_found
  | specification_mismatch

datatype event =
    Ev_open string
  | Ev_sym LIB_TYPE string
  | Ev_free LIB_TYPE
  | Ev_cerr string
  | Ev_handle_stored device LIB_TYPE
  | Ev_table_stored device

text \<open>
  A \<open>function_table_t&\<close> returned by the class refers either to the entry of the map
  \<open>tables\<close> or to the table inside the plugin image that \<open>dlsym\<close> pointed to.
\<close>

datatype table_ref = Cache_ref device | Image_ref table_ptr

text \<open>
  The state: the two member maps; \<open>libraries[domain_id]\<close>, the candidate map of the
  domain (a static \<open>std::map\<close> declared outside the sources, read with \<open>operator[]\<close>);
  the pending \<open>dlerror\<close> text; whether \<open>std::cerr\<close> has left its good state; the trace.
\<close>

record state =
  tables :: "device \<rightharpoonup> function_table"
  handles :: "device \<rightharpoonup> LIB_TYPE"
  libraries :: "device \<rightharpoonup> string list"
  last_error :: "string option"
  cerr_failed :: bool
  trace :: "event list"

subsection \<open>The loader macros (the \<open>__linux__\<close> branch)\<close>

text \<open>
  The loader of glibc discards the pending error text at every call of \<open>dlopen\<close>,
  \<open>dlsym\<close> and \<open>dlclose\<close>; a call that fails leaves its own text behind. \<open>dlerror\<close>
  returns the pending text (null when there is none) and clears it.
\<close>

definition GET_LIB_HANDLE :: "platform \<Rightarrow> string \<Rightarrow> state \<Rightarrow> LIB_TYPE option \<times> state" where
  "GET_LIB_HANDLE P libname s =
     (case dlopen P libname of
        None \<Rightarrow> (None, s\<lparr>last_error := Some (dlopen_error P libname),
                         trace := trace s @ [Ev_open libname]\<rparr>)
      | Some h \<Rightarrow> (Some h, s\<lparr>last_error := None,
                           trace := trace s @ [Ev_open libname]\<rparr>))"

definition GET_FUNC :: "platform \<Rightarrow> LIB_TYPE \<Rightarrow> string \<Rightarrow> state \<Rightarrow> table_ptr option \<times> state" where
  "GET_FUNC P lib fn s =
     (case dlsym P lib fn of
        None \<Rightarrow> (None, s\<lparr>last_error := Some (dlsym_error P lib fn),
                         trace := trace s @ [Ev_sym lib fn]\<rparr>)
      | Some t \<Rightarrow> (Some t, s\<lparr>last_error := None,
                           trace := trace s @ [Ev_sym lib fn]\<rparr>))"

definition FREE_LIB_HANDLE :: "LIB_TYPE \<Rightarrow> state \<Rightarrow> state" where
  "FREE_LIB_HANDLE lib s = s\<lparr>last_error := None, trace := trace s @ [Ev_free lib]\<rparr>"

definition ERROR_MSG :: "state \<Rightarrow> string option \<times> state" where
  "ERROR_MSG s = (last_error s, s\<lparr>last_error := None\<rparr>)"

text \<open>
  \<open>std::cerr << ERROR_MSG << '\\n'\<close>, as libstdc++ runs it. A stream that is not in its
  good state writes nothing. Handed a null \<open>const char*\<close> (the standard leaves this
  undefined), a good stream writes nothing and sets its \<open>badbit\<close>, so the newline and
  everything written later are dropped as well. Nothing in the class clears the state of
  the stream. An \<open>Ev_cerr\<close> in the trace is a text that was written, with its newline.
\<close>

definition cerr :: "string option \<Rightarrow> state \<Rightarrow> state" where
  "cerr msg s =
     (if cerr_failed s then s
      else case msg of
             None \<Rightarrow> s\<lparr>cerr_failed := True\<rparr>
           | Some text \<Rightarrow> s\<lparr>trace := trace s @ [Ev_cerr text]\<rparr>)"

text \<open>
  \<open>handle_deleter\<close> under \<open>std::unique_ptr\<close>: the destructor of a \<open>dlhandle\<close> (and the
  assignment over one) calls the deleter only on a non-null pointer.
\<close>

definition handle_deleter :: "LIB_TYPE option \<Rightarrow> state \<Rightarrow> state" where
  "handle_deleter p s = (case p of None \<Rightarrow> s | Some lib \<Rightarrow> FREE_LIB_HANDLE lib s)"

subsection \<open>\<open>add_table\<close>\<close>

text \<open>
  \<open>libraries[domain_id][key]\<close>: \<open>std::map::operator[]\<close> inserts an empty vector under a
  missing key and returns it.
\<close>

definition libraries_at :: "device \<Rightarrow> state \<Rightarrow> string list \<times> state" where
  "libraries_at key s =
     (case libraries s key of
        Some names \<Rightarrow> (names, s)
      | None \<Rightarrow> ([], s\<lparr>libraries := (libraries s)(key \<mapsto> [])\<rparr>))"

text \<open>
  The \<open>for\<close> loop over the candidates. \<open>handle\<close> is null when the loop starts and the loop
  leaves at the first non-null value, so every assignment overwrites a null handle and
  releases nothing.
\<close>

fun open_candidates :: "platform \<Rightarrow> string list \<Rightarrow> state \<Rightarrow> LIB_TYPE option \<times> state" where
  "open_candidates P [] s = (None, s)"
| "open_candidates P (libname # rest) s =
     (case GET_LIB_HANDLE P libname s of
        (Some h, s') \<Rightarrow> (Some h, s')
      | (None, s') \<Rightarrow> open_candidates P rest s')"

text \<open>
  \<open>handles[key] = std::move(handle)\<close>: the move assignment of \<open>std::unique_ptr\<close> puts the
  new pointer into the entry and then calls the deleter on the pointer the entry held
  before, if that was not null. \<open>tables[key] = *t\<close> copies the table.
\<close>

definition store_handle :: "device \<Rightarrow> LIB_TYPE \<Rightarrow> state \<Rightarrow> state" where
  "store_handle key h s =
     handle_deleter (handles s key)
       (s\<lparr>handles := (handles s)(key \<mapsto> h),
          trace := trace s @ [Ev_handle_stored key h]\<rparr>)"

definition store_table :: "device \<Rightarrow> function_table \<Rightarrow> state \<Rightarrow> state" where
  "store_table key t s =
     s\<lparr>tables := (tables s)(key \<mapsto> t), trace := trace s @ [Ev_table_stored key]\<rparr>"

text \<open>
  A \<open>throw\<close> unwinds the frame and destroys the local \<open>handle\<close>; on the normal return
  \<open>handle\<close> has been moved from and is null.
\<close>

definition add_table :: "platform \<Rightarrow> build \<Rightarrow> device \<Rightarrow> queue \<Rightarrow> state \<Rightarrow> (error + table_ref) \<times> state" where
  "add_table P B key q s =
     (let (names, s1) = libraries_at key s;
          (handle, s2) = open_candidates P names s1
      in case handle of
           None \<Rightarrow>
             if \<not> is_generic_device_supported B \<and> key = generic_device
             then (Inl (unsupported_device [] [] (get_device q)), s2)
             else (let (msg, s3) = ERROR_MSG s2
                   in (Inl backend_not_found, cerr msg s3))
         | Some h \<Rightarrow>
             (case GET_FUNC P h (table_name B) s2 of
                (None, s3) \<Rightarrow>
                  (let (msg, s4) = ERROR_MSG s3
                   in (Inl function_not_found, handle_deleter (Some h) (cerr msg s4)))
              | (Some t, s3) \<Rightarrow>
                  if version (table_at P t) \<noteq> SPEC_VERSION
                  then (Inl specification_mismatch, handle_deleter (Some h) s3)
                  else (Inr (Image_ref t),
                        store_table key (table_at P t) (store_handle key h s3))))"

subsection \<open>\<open>operator[]\<close>\<close>

text \<open>The public operation; the spec calls it \<open>resolve\<close>.\<close>

definition resolve :: "platform \<Rightarrow> build \<Rightarrow> device \<times> queue \<Rightarrow> state \<Rightarrow> (error + table_ref) \<times> state" where
  "resolve P B device_queue_pair s =
     (case tables s (fst device_queue_pair) of
        Some _ \<Rightarrow> (Inr (Cache_ref (fst device_queue_pair)), s)
      | None \<Rightarrow> add_table P B (fst device_queue_pair) (snd device_queue_pair) s)"

text \<open>Reading through a returned reference.\<close>

definition deref :: "platform \<Rightarrow> state \<Rightarrow> table_ref \<Rightarrow> function_table option" where
  "deref P s r = (case r of Cache_ref d \<Rightarrow> tables s d | Image_ref t \<Rightarrow> Some (table_at P t))"

subsection \<open>Reading states and traces\<close>

text \<open>The candidate list the registry holds for a device (none listed: the empty list).\<close>

definition candidates :: "state \<Rightarrow> device \<Rightarrow> string list" where
  "candidates s key = (case libraries s key of None \<Rightarrow> [] | Some names \<Rightarrow> names)"

text \<open>The events a call added to the trace.\<close>

definition new_events :: "state \<Rightarrow> state \<Rightarrow> event list" where
  "new_events s s' = drop (length (trace s)) (trace s')"

text \<open>The library names of the open attempts in a trace, in order.\<close>

fun opens_of :: "event list \<Rightarrow> string list" where
  "opens_of [] = []"
| "opens_of (Ev_open n # es) = n # opens_of es"
| "opens_of (_ # es) = opens_of es"

text \<open>The handles released in a trace, in order.\<close>

fun frees_of :: "event list \<Rightarrow> LIB_TYPE list" where
  "frees_of [] = []"
| "frees_of (Ev_free h # es) = h # frees_of es"
| "frees_of (_ # es) = frees_of es"

text \<open>
  The names a walk over a candidate list tries to open: every name up to the first one
  that opens, and that one.
\<close>

definition attempted :: "platform \<Rightarrow> string list \<Rightarrow> string list" where
  "attempted P names =
     takeWhile (\<lambda>n. dlopen P n = None) names @ take 1 (dropWhile (\<lambda>n. dlopen P n = None) names)"

text \<open>
  The state a freshly constructed \<open>table_initializer\<close> starts from, in a process that has
  not used the loader or \<open>std::cerr\<close> before: both maps empty, no error text pending, the
  stream good.
\<close>

definition init_state :: "(device \<rightharpoonup> string list) \<Rightarrow> state" where
  "init_state reg = \<lparr>tables = Map.empty, handles = Map.empty, libraries = reg,
                     last_error = None, cerr_failed = False, trace = []\<rparr>"

subsection \<open>The states a loader can be in\<close>

text \<open>
  Every \<open>Ev_table_stored\<close> of a device in a trace comes after an \<open>Ev_handle_stored\<close> of
  that device; \<open>H\<close> holds the devices whose handle has been stored so far.
\<close>

fun handle_before_table :: "device set \<Rightarrow> event list \<Rightarrow> bool" where
  "handle_before_table H [] = True"
| "handle_before_table H (Ev_handle_stored d h # es) = handle_before_table (insert d H) es"
| "handle_before_table H (Ev_table_stored d # es) = (d \<in> H \<and> handle_before_table H es)"
| "handle_before_table H (_ # es) = handle_before_table H es"

text \<open>
  A library passes the checks of \<open>add_table\<close>: it exports the table symbol, and the
  table has the expected version.
\<close>

definition usable_library :: "platform \<Rightarrow> build \<Rightarrow> LIB_TYPE \<Rightarrow> bool" where
  "usable_library P B h =
     (case dlsym P h (table_name B) of
        None \<Rightarrow> False
      | Some t \<Rightarrow> version (table_at P t) = SPEC_VERSION)"

text \<open>
  What holds of the two maps and the trace between calls: a cached table is the one its
  cached handle exports; no handle is held for a device without a table; table stores
  follow handle stores; only libraries that fail the checks have been released.
\<close>

definition cache_inv :: "platform \<Rightarrow> build \<Rightarrow> state \<Rightarrow> bool" where
  "cache_inv P B s =
     ((\<forall>d t. tables s d = Some t \<longrightarrow>
         (\<exists>h a. handles s d = Some h \<and> dlsym P h (table_name B) = Some a \<and>
                table_at P a = t \<and> version t = SPEC_VERSION)) \<and>
      (\<forall>d. tables s d = None \<longrightarrow> handles s d = None) \<and>
      handle_before_table {} (trace s) \<and>
      (\<forall>h\<in>set (frees_of (trace s)). \<not> usable_library P B h))"

text \<open>
  The states of a \<open>table_initializer\<close> on a platform: the one it is constructed in (any
  registry), and the one after each call of \<open>operator[]\<close>.
\<close>

inductive reachable :: "platform \<Rightarrow> build \<Rightarrow> state \<Rightarrow> bool" for P :: platform and B :: build where
  start: "reachable P B (init_state reg)"
| call: "reachable P B s \<Longrightarrow> reachable P B (snd (resolve P B dq s))"

subsection \<open>A stub loader\<close>

text \<open>
  A small installation to run the loader on: library \<open>B\<close> exports a table of version 1,
  \<open>Old\<close> one of version 2, \<open>Bare\<close> opens but exports nothing, nothing else opens.
\<close>

definition stub_platform :: platform where
  "stub_platform =
     \<lparr>dlopen = (\<lambda>n. if n = ''B'' then Some 1 else if n = ''Old'' then Some 2
                     else if n = ''Bare'' then Some 3 else None),
      dlsym = (\<lambda>h fn. if fn = ''tbl'' \<and> h = 1 then Some 100
                       else if fn = ''tbl'' \<and> h = 2 then Some 200 else None),
      table_at = (\<lambda>a. if a = 100 then \<lparr>version = 1, pointers = [11, 12]\<rparr>
                    else \<lparr>version = 2, pointers = [21]\<rparr>),
      dlopen_error = (\<lambda>n. ''cannot open '' @ n),
      dlsym_error = (\<lambda>h fn. ''undefined symbol '' @ fn)\<rparr>"

definition stub_build :: build where
  "stub_build = \<lparr>is_generic_device_supported = False, table_name = ''tbl''\<rparr>"

definition stub_libraries :: "device \<rightharpoonup> string list" where
  "stub_libraries =
     [specific_device 0 \<mapsto> [''A'', ''B''],
      specific_device 1 \<mapsto> [''Old''],
      specific_device 2 \<mapsto> [''Bare''],
      specific_device 3 \<mapsto> [''A''],
      specific_device 5 \<mapsto> [''B''],
      generic_device \<mapsto> []]"

definition stub_queue :: queue where
  "stub_queue = \<lparr>get_device = 42, queue_id = 0\<rparr>"

definition other_queue :: queue where
  "other_queue = \<lparr>get_device = 43, queue_id = 1\<rparr>"

definition stub_state :: state where
  "stub_state = init_state stub_libraries"

text \<open>The stub state after device 0 has been resolved once.\<close>

definition loaded_state :: state where
  "loaded_state = snd (resolve stub_platform stub_build (specific_device 0, stub_queue) stub_state)"

text \<open>
  The stub state after a call for device 4, which the registry does not list: the call has
  handed the null \<open>dlerror\<close> result to \<open>std::cerr\<close>.
\<close>

definition null_written_state :: state where
  "null_written_state =
     snd (resolve stub_platform stub_build (specific_device 4, stub_queue) stub_state)"

section \<open>Properties\<close>

subsection \<open>The candidate loop and the paths of \<open>add_table\<close>\<close>

lemma open_candidates_frame:
  "tables (snd (open_candidates P names s)) = tables s \<and>
   handles (snd (open_candidates P names s)) = handles s \<and>
   libraries (snd (open_candidates P names s)) = libraries s"
  by (induction names arbitrary: s) (auto simp: GET_LIB_HANDLE_def split: option.splits)

lemma open_candidates_all_fail:
  "\<forall>n\<in>set names. dlopen P n = None \<Longrightarrow>
   open_candidates P names s =
     (None, s\<lparr>last_error := (if names = [] then last_error s
                                else Some (dlopen_error P (last names))),
               trace := trace s @ map Ev_open names\<rparr>)"
  by (induction names arbitrary: s) (auto simp: GET_LIB_HANDLE_def)

lemma open_candidates_first:
  "\<forall>m\<in>set pre. dlopen P m = None \<Longrightarrow> dlopen P n = Some h \<Longrightarrow>
   open_candidates P (pre @ n # post) s =
     (Some h, s\<lparr>last_error := None, trace := trace s @ map Ev_open (pre @ [n])\<rparr>)"
  by (induction pre arbitrary: s) (auto simp: GET_LIB_HANDLE_def)

lemma open_candidates_cases:
  "(\<forall>n\<in>set names. dlopen P n = None) \<or>
   (\<exists>pre n post h. names = pre @ n # post \<and> (\<forall>m\<in>set pre. dlopen P m = None) \<and> dlopen P n = Some h)"
proof (induction names)
  case Nil
  then show ?case by simp
next
  case (Cons a names)
  show ?case
  proof (cases "dlopen P a")
    case None
    from Cons show ?thesis
    proof
      assume "\<forall>n\<in>set names. dlopen P n = None"
      with None show ?thesis by simp
    next
      assume "\<exists>pre n post h. names = pre @ n # post \<and> (\<forall>m\<in>set pre. dlopen P m = None) \<and> dlopen P n = Some h"
      then obtain pre n post h where "names = pre @ n # post" "\<forall>m\<in>set pre. dlopen P m = None" "dlopen P n = Some h" by blast
      with None have "a # names = (a # pre) @ n # post \<and> (\<forall>m\<in>set (a # pre). dlopen P m = None) \<and> dlopen P n = Some h" by simp
      then show ?thesis by blast
    qed
  next
    case (Some h)
    then have "a # names = [] @ a # names \<and> (\<forall>m\<in>set []. dlopen P m = None) \<and> dlopen P a = Some h" by simp
    then show ?thesis by blast
  qed
qed

lemma opens_of_append: "opens_of (xs @ ys) = opens_of xs @ opens_of ys"
  by (induction xs rule: opens_of.induct) auto

lemma opens_of_map_open: "opens_of (map Ev_open ns) = ns"
  by (induction ns) auto

lemma frees_of_append: "frees_of (xs @ ys) = frees_of xs @ frees_of ys"
  by (induction xs rule: frees_of.induct) auto

lemma frees_of_map_open: "frees_of (map Ev_open ns) = []"
  by (induction ns) auto

lemma libraries_at_eq:
  "libraries_at key s = (candidates s key, s\<lparr>libraries := (libraries s)(key \<mapsto> candidates s key)\<rparr>)"
  by (cases "libraries s key") (simp_all add: libraries_at_def candidates_def map_upd_triv)

lemma cerr_fields:
  "tables (cerr msg s) = tables s" "handles (cerr msg s) = handles s"
  "libraries (cerr msg s) = libraries s" "last_error (cerr msg s) = last_error s"
  by (simp_all add: cerr_def split: option.splits)

lemma cerr_trace:
  "trace (cerr msg s) =
     trace s @ (if cerr_failed s then []
                else case msg of None \<Rightarrow> [] | Some text \<Rightarrow> [Ev_cerr text])"
  by (simp add: cerr_def split: option.splits)

lemma add_table_none_opens:
  assumes "\<forall>n\<in>set (candidates s key). dlopen P n = None"
  shows "add_table P B key q s =
    (if \<not> is_generic_device_supported B \<and> key = generic_device
     then (Inl (unsupported_device [] [] (get_device q)),
           s\<lparr>libraries := (libraries s)(key \<mapsto> candidates s key),
             last_error := (if candidates s key = [] then last_error s
                            else Some (dlopen_error P (last (candidates s key)))),
             trace := trace s @ map Ev_open (candidates s key)\<rparr>)
     else (Inl backend_not_found,
           s\<lparr>libraries := (libraries s)(key \<mapsto> candidates s key),
             last_error := None,
             cerr_failed := (cerr_failed s \<or> candidates s key = [] \<and> last_error s = None),
             trace := trace s @ map Ev_open (candidates s key) @
               (if cerr_failed s then []
                else if candidates s key = []
                     then (case last_error s of None \<Rightarrow> [] | Some text \<Rightarrow> [Ev_cerr text])
                     else [Ev_cerr (dlopen_error P (last (candidates s key)))])\<rparr>))"
proof (cases "\<not> is_generic_device_supported B \<and> key = generic_device")
  case True
  with assms show ?thesis
    by (simp add: add_table_def libraries_at_eq open_candidates_all_fail)
next
  case False
  show ?thesis
  proof (cases "candidates s key = []")
    case True
    with False assms show ?thesis
      by (cases "last_error s")
         (auto simp: add_table_def libraries_at_eq ERROR_MSG_def cerr_def)
  next
    case nonempty: False
    with False assms show ?thesis
      by (auto simp: add_table_def libraries_at_eq open_candidates_all_fail ERROR_MSG_def
          cerr_def)
  qed
qed

lemma add_table_no_symbol:
  assumes "candidates s key = pre @ n # post" "\<forall>m\<in>set pre. dlopen P m = None"
    "dlopen P n = Some h" "dlsym P h (table_name B) = None"
  shows "add_table P B key q s =
    (Inl function_not_found,
     s\<lparr>libraries := (libraries s)(key \<mapsto> candidates s key),
       last_error := None,
       trace := trace s @ map Ev_open pre @ [Ev_open n, Ev_sym h (table_name B)] @
         (if cerr_failed s then [] else [Ev_cerr (dlsym_error P h (table_name B))]) @
         [Ev_free h]\<rparr>)"
  using assms
  by (simp add: add_table_def libraries_at_eq open_candidates_first GET_FUNC_def ERROR_MSG_def
      cerr_def handle_deleter_def FREE_LIB_HANDLE_def)

lemma add_table_bad_version:
  assumes "candidates s key = pre @ n # post" "\<forall>m\<in>set pre. dlopen P m = None"
    "dlopen P n = Some h" "dlsym P h (table_name B) = Some t"
    "version (table_at P t) \<noteq> SPEC_VERSION"
  shows "add_table P B key q s =
    (Inl specification_mismatch,
     s\<lparr>libraries := (libraries s)(key \<mapsto> candidates s key),
       last_error := None,
       trace := trace s @ map Ev_open pre @ [Ev_open n, Ev_sym h (table_name B), Ev_free h]\<rparr>)"
  using assms
  by (simp add: add_table_def libraries_at_eq open_candidates_first GET_FUNC_def
      handle_deleter_def FREE_LIB_HANDLE_def)

lemma add_table_success:
  assumes "candidates s key = pre @ n # post" "\<forall>m\<in>set pre. dlopen P m = None"
    "dlopen P n = Some h" "dlsym P h (table_name B) = Some t"
    "version (table_at P t) = SPEC_VERSION"
  shows "add_table P B key q s =
    (Inr (Image_ref t),
     s\<lparr>tables := (tables s)(key \<mapsto> table_at P t),
       handles := (handles s)(key \<mapsto> h),
       libraries := (libraries s)(key \<mapsto> candidates s key),
       last_error := None,
       trace := trace s @ map Ev_open pre @
         [Ev_open n, Ev_sym h (table_name B), Ev_handle_stored key h] @
         (case handles s key of None \<Rightarrow> [] | Some old \<Rightarrow> [Ev_free old]) @
         [Ev_table_stored key]\<rparr>)"
  using assms
  by (cases "handles s key")
     (simp_all add: add_table_def libraries_at_eq open_candidates_first GET_FUNC_def
      handle_deleter_def FREE_LIB_HANDLE_def store_handle_def store_table_def)

lemma add_table_failure_frame:
  assumes "add_table P B key q s = (Inl e, s')"
  shows "tables s' = tables s \<and> handles s' = handles s \<and>
         libraries s' = (libraries s)(key \<mapsto> candidates s key)"
proof -
  consider (none) "\<forall>n\<in>set (candidates s key). dlopen P n = None"
    | (some) pre n post h where "candidates s key = pre @ n # post"
        "\<forall>m\<in>set pre. dlopen P m = None" "dlopen P n = Some h"
    using open_candidates_cases [of "candidates s key" P] by blast
  then show ?thesis
  proof cases
    case none
    from add_table_none_opens [OF none, of B q] assms show ?thesis
      by (auto split: if_splits)
  next
    case some
    show ?thesis
    proof (cases "dlsym P h (table_name B)")
      case None
      from add_table_no_symbol [OF some None, of q] assms show ?thesis by auto
    next
      case (Some t)
      show ?thesis
      proof (cases "version (table_at P t) = SPEC_VERSION")
        case True
        from add_table_success [OF some Some True, of q] assms show ?thesis by simp
      next
        case False
        from add_table_bad_version [OF some Some False, of q] assms show ?thesis by auto
      qed
    qed
  qed
qed

lemma attempted_all_fail:
  "\<forall>n\<in>set names. dlopen P n = None \<Longrightarrow> attempted P names = names"
  by (induction names) (simp_all add: attempted_def)

lemma attempted_first:
  "\<forall>m\<in>set pre. dlopen P m = None \<Longrightarrow> dlopen P n = Some h \<Longrightarrow>
   attempted P (pre @ n # post) = pre @ [n]"
  by (simp add: attempted_def)

lemma add_table_opens:
  "opens_of (drop (length (trace s)) (trace (snd (add_table P B key q s)))) = attempted P (candidates s key)"
proof -
  consider (none) "\<forall>n\<in>set (candidates s key). dlopen P n = None"
    | (some) pre n post h where "candidates s key = pre @ n # post"
        "\<forall>m\<in>set pre. dlopen P m = None" "dlopen P n = Some h"
    using open_candidates_cases [of "candidates s key" P] by blast
  then show ?thesis
  proof cases
    case none
    then show ?thesis
      by (simp add: add_table_none_opens attempted_all_fail opens_of_append opens_of_map_open
          split: option.splits)
  next
    case some
    have att: "attempted P (candidates s key) = pre @ [n]"
      using some by (simp add: attempted_first)
    show ?thesis
    proof (cases "dlsym P h (table_name B)")
      case None
      from add_table_no_symbol [OF some None, of q] att show ?thesis
        by (simp add: opens_of_append opens_of_map_open)
    next
      case (Some t)
      show ?thesis
      proof (cases "version (table_at P t) = SPEC_VERSION")
        case True
        from add_table_success [OF some Some True, of q] att show ?thesis
          by (simp add: opens_of_append opens_of_map_open split: option.splits)
      next
        case False
        from add_table_bad_version [OF some Some False, of q] att show ?thesis
          by (simp add: opens_of_append opens_of_map_open)
      qed
    qed
  qed
qed

lemma add_table_outcome:
  "(\<exists>e. fst (add_table P B k q s) = Inl e \<and>
        tables (snd (add_table P B k q s)) = tables s \<and>
        handles (snd (add_table P B k q s)) = handles s) \<or>
   (\<exists>h t. fst (add_table P B k q s) = Inr (Image_ref t) \<and>
        tables (snd (add_table P B k q s)) = (tables s)(k \<mapsto> table_at P t) \<and>
        handles (snd (add_table P B k q s)) = (handles s)(k \<mapsto> h) \<and>
        dlsym P h (table_name B) = Some t \<and> version (table_at P t) = SPEC_VERSION)"
proof -
  consider (none) "\<forall>n\<in>set (candidates s k). dlopen P n = None"
    | (some) pre n post h where "candidates s k = pre @ n # post"
        "\<forall>m\<in>set pre. dlopen P m = None" "dlopen P n = Some h"
    using open_candidates_cases [of "candidates s k" P] by blast
  then show ?thesis
  proof cases
    case none
    from add_table_none_opens [OF none, of B q] show ?thesis
      by (cases "\<not> is_generic_device_supported B \<and> k = generic_device") simp_all
  next
    case some
    show ?thesis
    proof (cases "dlsym P h (table_name B)")
      case None
      from add_table_no_symbol [OF some None, of q] show ?thesis by simp
    next
      case (Some t)
      show ?thesis
      proof (cases "version (table_at P t) = SPEC_VERSION")
        case True
        from add_table_success [OF some Some True, of q] Some True show ?thesis
          by auto
      next
        case False
        from add_table_bad_version [OF some Some False, of q] show ?thesis by simp
      qed
    qed
  qed
qed

lemma resolve_keeps_entry:
  assumes "tables s key = Some t"
  shows "tables (snd (resolve P B (k, q) s)) key = Some t"
proof (cases "tables s k")
  case None
  with assms have ne: "k \<noteq> key" by auto
  from None have r: "resolve P B (k, q) s = add_table P B k q s"
    by (simp add: resolve_def)
  from add_table_outcome [of P B k q s] ne assms show ?thesis
    unfolding r by auto
next
  case (Some u)
  with assms show ?thesis by (simp add: resolve_def)
qed

lemma resolve_success_cached:
  assumes "fst (resolve P B (key, q) s) = Inr r"
  shows "tables (snd (resolve P B (key, q) s)) key \<noteq> None"
proof (cases "tables s key")
  case None
  then have r: "resolve P B (key, q) s = add_table P B key q s"
    by (simp add: resolve_def)
  from add_table_outcome [of P B key q s] assms show ?thesis
    unfolding r by auto
next
  case (Some u)
  then show ?thesis by (simp add: resolve_def)
qed

lemma resolve_cached:
  "tables s key = Some t \<Longrightarrow> resolve P B (key, q) s = (Inr (Cache_ref key), s)"
  by (simp add: resolve_def)

lemma handle_before_table_append:
  "handle_before_table H xs \<Longrightarrow> (\<And>H'. handle_before_table H' ys) \<Longrightarrow>
   handle_before_table H (xs @ ys)"
  by (induction H xs rule: handle_before_table.induct) auto

lemma handle_before_table_opens:
  "handle_before_table H (map Ev_open ns @ es) = handle_before_table H es"
  by (induction ns) auto

lemma handle_before_table_only_opens:
  "handle_before_table H (map Ev_open ns)"
  by (induction ns) auto

lemma add_table_events:
  assumes "handles s key = None"
  shows "\<exists>evs. trace (snd (add_table P B key q s)) = trace s @ evs \<and>
           (\<forall>H. handle_before_table H evs) \<and>
           (\<forall>h\<in>set (frees_of evs). \<not> usable_library P B h)"
proof -
  consider (none) "\<forall>n\<in>set (candidates s key). dlopen P n = None"
    | (some) pre n post h where "candidates s key = pre @ n # post"
        "\<forall>m\<in>set pre. dlopen P m = None" "dlopen P n = Some h"
    using open_candidates_cases [of "candidates s key" P] by blast
  then show ?thesis
  proof cases
    case none
    show ?thesis
      unfolding add_table_none_opens [OF none]
      by (cases "\<not> is_generic_device_supported B \<and> key = generic_device")
         (simp_all add: handle_before_table_opens handle_before_table_only_opens
            frees_of_append frees_of_map_open split: option.splits)
  next
    case some
    show ?thesis
    proof (cases "dlsym P h (table_name B)")
      case None
      show ?thesis
        unfolding add_table_no_symbol [OF some None]
        using None
        by (simp add: handle_before_table_opens frees_of_append frees_of_map_open
            usable_library_def)
    next
      case (Some t)
      show ?thesis
      proof (cases "version (table_at P t) = SPEC_VERSION")
        case True
        show ?thesis
          unfolding add_table_success [OF some Some True]
          using assms
          by (simp add: handle_before_table_opens frees_of_append frees_of_map_open)
      next
        case False
        show ?thesis
          unfolding add_table_bad_version [OF some Some False]
          using Some False
          by (simp add: handle_before_table_opens frees_of_append frees_of_map_open
              usable_library_def)
      qed
    qed
  qed
qed

lemma cache_inv_init: "cache_inv P B (init_state reg)"
  by (simp add: cache_inv_def init_state_def)

lemma cache_inv_add_table:
  assumes inv: "cache_inv P B s" and unc: "tables s key = None"
  shows "cache_inv P B (snd (add_table P B key q s))"
proof -
  let ?s' = "snd (add_table P B key q s)"
  from inv unc have hn: "handles s key = None"
    by (simp add: cache_inv_def)
  from add_table_events [OF hn, of P B q]
  obtain evs where tr: "trace ?s' = trace s @ evs"
    and ord: "\<And>H. handle_before_table H evs"
    and fr: "\<forall>h\<in>set (frees_of evs). \<not> usable_library P B h"
    by blast
  from inv have i1: "\<And>d t. tables s d = Some t \<Longrightarrow>
         (\<exists>h a. handles s d = Some h \<and> dlsym P h (table_name B) = Some a \<and>
                table_at P a = t \<and> version t = SPEC_VERSION)"
    and i2: "\<And>d. tables s d = None \<Longrightarrow> handles s d = None"
    and i3: "handle_before_table {} (trace s)"
    and i4: "\<forall>h\<in>set (frees_of (trace s)). \<not> usable_library P B h"
    by (simp_all add: cache_inv_def)
  have t3: "handle_before_table {} (trace ?s')"
    unfolding tr by (rule handle_before_table_append [OF i3 ord])
  have t4: "\<forall>h\<in>set (frees_of (trace ?s')). \<not> usable_library P B h"
    unfolding tr using i4 fr by (auto simp: frees_of_append)
  from add_table_outcome [of P B key q s]
  have maps: "(\<forall>d t. tables ?s' d = Some t \<longrightarrow>
         (\<exists>h a. handles ?s' d = Some h \<and> dlsym P h (table_name B) = Some a \<and>
                table_at P a = t \<and> version t = SPEC_VERSION)) \<and>
      (\<forall>d. tables ?s' d = None \<longrightarrow> handles ?s' d = None)"
  proof
    assume "\<exists>e. fst (add_table P B key q s) = Inl e \<and> tables ?s' = tables s \<and>
        handles ?s' = handles s"
    then have "tables ?s' = tables s" "handles ?s' = handles s" by auto
    with i1 i2 show ?thesis by simp
  next
    assume "\<exists>h t. fst (add_table P B key q s) = Inr (Image_ref t) \<and>
        tables ?s' = (tables s)(key \<mapsto> table_at P t) \<and>
        handles ?s' = (handles s)(key \<mapsto> h) \<and>
        dlsym P h (table_name B) = Some t \<and> version (table_at P t) = SPEC_VERSION"
    then obtain h t where e: "tables ?s' = (tables s)(key \<mapsto> table_at P t)"
        "handles ?s' = (handles s)(key \<mapsto> h)"
        "dlsym P h (table_name B) = Some t" "version (table_at P t) = SPEC_VERSION"
      by blast
    show ?thesis
      unfolding e(1,2) using e(3,4) i1 i2 by auto
  qed
  from maps t3 t4 show ?thesis
    by (simp add: cache_inv_def)
qed

lemma cache_inv_resolve:
  assumes "cache_inv P B s"
  shows "cache_inv P B (snd (resolve P B dq s))"
proof (cases "tables s (fst dq)")
  case None
  then have "resolve P B dq s = add_table P B (fst dq) (snd dq) s"
    by (simp add: resolve_def)
  with cache_inv_add_table [OF assms None] show ?thesis by simp
next
  case (Some t)
  with assms show ?thesis by (simp add: resolve_def)
qed

lemma reachable_cache_inv: "reachable P B s \<Longrightarrow> cache_inv P B s"
  by (induction rule: reachable.induct) (simp_all add: cache_inv_init cache_inv_resolve)

text \<open>The definitions to unfold when the loader is run on the stub installation.\<close>

lemmas stub_defs = resolve_def stub_state_def init_state_def add_table_def libraries_at_def
      stub_libraries_def stub_platform_def stub_build_def GET_LIB_HANDLE_def GET_FUNC_def
      SPEC_VERSION_def handle_deleter_def FREE_LIB_HANDLE_def ERROR_MSG_def cerr_def
      store_handle_def store_table_def stub_queue_def other_queue_def

subsection \<open>Failed calls\<close>

text \<open>
  C2. Whatever exception a call of \<open>operator[]\<close> ends with (\<open>unsupported_device\<close>,
  \<open>backend_not_found\<close>, \<open>function_not_found\<close> or \<open>specification_mismatch\<close>: every value
  of type \<open>error\<close>), the maps \<open>tables\<close> and \<open>handles\<close> are what they were before the call.
  The registry still gives the same candidates for the device, and the next call for the
  device, on any platform, runs \<open>add_table\<close> again.
\<close>

theorem failed_resolve_keeps_caches:
  assumes "resolve P B (key, q) s = (Inl e, s')"
  shows "tables s' = tables s \<and> handles s' = handles s \<and>
         candidates s' key = candidates s key \<and>
         resolve P' B' (key, q') s' = add_table P' B' key q' s'"
proof -
  from assms have unc: "tables s key = None"
    by (cases "tables s key") (simp_all add: resolve_def)
  with assms have "add_table P B key q s = (Inl e, s')"
    by (simp add: resolve_def)
  from add_table_failure_frame [OF this]
  have fr: "tables s' = tables s" "handles s' = handles s"
    "libraries s' = (libraries s)(key \<mapsto> candidates s key)" by simp_all
  from fr(3) have "candidates s' key = candidates s key" by (simp add: candidates_def)
  moreover from fr(1) unc have "resolve P' B' (key, q') s' = add_table P' B' key q' s'"
    by (simp add: resolve_def)
  ultimately show ?thesis using fr by simp
qed

theorem failed_resolve_keeps_caches_witness:
  "fst (resolve stub_platform stub_build (specific_device 1, stub_queue) stub_state)
     = Inl specification_mismatch \<and>
   tables (snd (resolve stub_platform stub_build (specific_device 1, stub_queue) stub_state))
     = tables stub_state \<and>
   handles (snd (resolve stub_platform stub_build (specific_device 1, stub_queue) stub_state))
     = handles stub_state"
proof -
  have e: "fst (resolve stub_platform stub_build (specific_device 1, stub_queue) stub_state)
          = Inl specification_mismatch"
    by (simp add: stub_defs)
  then have h: "resolve stub_platform stub_build (specific_device 1, stub_queue) stub_state
      = (Inl specification_mismatch,
         snd (resolve stub_platform stub_build (specific_device 1, stub_queue) stub_state))"
    by (simp add: prod_eq_iff)
  from failed_resolve_keeps_caches [OF h, of stub_platform stub_build stub_queue] e
  show ?thesis by blast
qed


subsection \<open>The order of the candidates\<close>

text \<open>
  C4. For a device that is not cached, the open attempts of a call are the candidate names
  of the device in list order, up to and including the first that opens. In particular,
  with candidates \<open>[A, C]\<close> of which only \<open>C\<close> opens (and exports a table of the expected
  version), the call tries \<open>A\<close>, then \<open>C\<close>, returns the table \<open>C\<close> exports and caches
  it with the handle of \<open>C\<close>.
\<close>

theorem candidates_tried_in_order:
  assumes "tables s key = None"
  shows "opens_of (new_events s (snd (resolve P B (key, q) s))) = attempted P (candidates s key) \<and>
    (candidates s key = [A, C] \<and> dlopen P A = None \<and> dlopen P C = Some h \<and>
     dlsym P h (table_name B) = Some t \<and> version (table_at P t) = SPEC_VERSION \<longrightarrow>
       opens_of (new_events s (snd (resolve P B (key, q) s))) = [A, C] \<and>
       fst (resolve P B (key, q) s) = Inr (Image_ref t) \<and>
       tables (snd (resolve P B (key, q) s)) key = Some (table_at P t) \<and>
       handles (snd (resolve P B (key, q) s)) key = Some h)"
proof -
  from assms have r: "resolve P B (key, q) s = add_table P B key q s"
    by (simp add: resolve_def)
  have general: "opens_of (new_events s (snd (resolve P B (key, q) s))) = attempted P (candidates s key)"
    by (simp add: r new_events_def add_table_opens)
  have "opens_of (new_events s (snd (resolve P B (key, q) s))) = [A, C] \<and>
       fst (resolve P B (key, q) s) = Inr (Image_ref t) \<and>
       tables (snd (resolve P B (key, q) s)) key = Some (table_at P t) \<and>
       handles (snd (resolve P B (key, q) s)) key = Some h"
    if c: "candidates s key = [A, C]" and a: "dlopen P A = None" and b: "dlopen P C = Some h"
      and f: "dlsym P h (table_name B) = Some t" and v: "version (table_at P t) = SPEC_VERSION"
  proof -
    from c have c': "candidates s key = [A] @ C # []" by simp
    from a have a': "\<forall>m\<in>set [A]. dlopen P m = None" by simp
    from add_table_success [OF c' a' b f v, of q] general c a b
    show ?thesis by (simp add: r attempted_def)
  qed
  with general show ?thesis by blast
qed

theorem candidates_tried_in_order_witness:
  "opens_of (new_events stub_state
      (snd (resolve stub_platform stub_build (specific_device 0, stub_queue) stub_state)))
     = [''A'', ''B''] \<and>
   attempted stub_platform (candidates stub_state (specific_device 0)) = [''A'', ''B''] \<and>
   fst (resolve stub_platform stub_build (specific_device 0, stub_queue) stub_state)
     = Inr (Image_ref 100) \<and>
   tables (snd (resolve stub_platform stub_build (specific_device 0, stub_queue) stub_state))
     (specific_device 0) = Some (table_at stub_platform 100)"
proof -
  have u: "tables stub_state (specific_device 0) = None"
    by (simp add: stub_state_def init_state_def)
  have h: "candidates stub_state (specific_device 0) = [''A'', ''B''] \<and>
     dlopen stub_platform ''A'' = None \<and> dlopen stub_platform ''B'' = Some 1 \<and>
     dlsym stub_platform 1 (table_name stub_build) = Some 100 \<and>
     version (table_at stub_platform 100) = SPEC_VERSION"
    by (simp add: candidates_def stub_defs)
  from candidates_tried_in_order [OF u, of stub_platform stub_build stub_queue "''A''" "''B''" 1 100] h
  show ?thesis by (simp add: attempted_def stub_platform_def)
qed


subsection \<open>The first successful call\<close>

text \<open>
  C1 as stated, "a successful first call returns a reference to the cached copy, not to
  the table inside the plugin image", fails: \<open>add_table\<close> ends with \<open>return *t\<close>, and
  \<open>t\<close> is the pointer \<open>dlsym\<close> gave. On the stub installation device 5 is not cached, its
  candidate \<open>B\<close> opens, the symbol resolves to address 100, the version there is the
  expected one, and the reference returned is the one to address 100 of the image.
\<close>

theorem first_resolve_returns_image_table_counterexample:
  "tables stub_state (specific_device 5) = None \<and>
   candidates stub_state (specific_device 5) = [''B''] \<and>
   dlopen stub_platform ''B'' = Some 1 \<and>
   dlsym stub_platform 1 (table_name stub_build) = Some 100 \<and>
   version (table_at stub_platform 100) = SPEC_VERSION \<and>
   fst (resolve stub_platform stub_build (specific_device 5, stub_queue) stub_state)
     = Inr (Image_ref 100) \<and>
   fst (resolve stub_platform stub_build (specific_device 5, stub_queue) stub_state)
     \<noteq> Inr (Cache_ref (specific_device 5))"
  by (simp add: candidates_def stub_defs)

text \<open>
  C1 (as the code has it). When a device is not cached, the first of its candidates that
  opens gives handle \<open>h\<close>, the table symbol resolves in \<open>h\<close> to \<open>t\<close> and the table at
  \<open>t\<close> has the expected version, then the call stores \<open>h\<close> in \<open>handles\<close> under the device
  and a copy of the table at \<open>t\<close> in \<open>tables\<close> under the device, changes no other entry,
  and returns the reference to the table at \<open>t\<close> inside the plugin image; what that
  reference reads equals the cached copy.
\<close>

theorem first_resolve_caches_and_returns_image_table:
  assumes "tables s key = None"
    and "candidates s key = pre @ n # post"
    and "\<forall>m\<in>set pre. dlopen P m = None"
    and "dlopen P n = Some h"
    and "dlsym P h (table_name B) = Some t"
    and "version (table_at P t) = SPEC_VERSION"
  shows "fst (resolve P B (key, q) s) = Inr (Image_ref t) \<and>
    handles (snd (resolve P B (key, q) s)) = (handles s)(key \<mapsto> h) \<and>
    tables (snd (resolve P B (key, q) s)) = (tables s)(key \<mapsto> table_at P t) \<and>
    deref P (snd (resolve P B (key, q) s)) (Image_ref t)
      = deref P (snd (resolve P B (key, q) s)) (Cache_ref key)"
proof -
  from assms(1) have r: "resolve P B (key, q) s = add_table P B key q s"
    by (simp add: resolve_def)
  from add_table_success [OF assms(2-6), of q] show ?thesis
    by (simp add: r deref_def)
qed

theorem first_resolve_caches_and_returns_image_table_witness:
  "fst (resolve stub_platform stub_build (specific_device 0, stub_queue) stub_state)
     = Inr (Image_ref 100) \<and>
   handles (snd (resolve stub_platform stub_build (specific_device 0, stub_queue) stub_state))
     = (handles stub_state)(specific_device 0 \<mapsto> 1) \<and>
   tables (snd (resolve stub_platform stub_build (specific_device 0, stub_queue) stub_state))
     = (tables stub_state)(specific_device 0 \<mapsto> \<lparr>version = 1, pointers = [11, 12]\<rparr>) \<and>
   deref stub_platform
     (snd (resolve stub_platform stub_build (specific_device 0, stub_queue) stub_state))
     (Image_ref 100) = Some \<lparr>version = 1, pointers = [11, 12]\<rparr>"
proof -
  have h1: "tables stub_state (specific_device 0) = None"
    by (simp add: stub_state_def init_state_def)
  have h2: "candidates stub_state (specific_device 0) = [''A''] @ ''B'' # []"
    by (simp add: candidates_def stub_defs)
  have h3: "\<forall>m\<in>set [''A'']. dlopen stub_platform m = None"
    by (simp add: stub_platform_def)
  have h4: "dlopen stub_platform ''B'' = Some 1"
    by (simp add: stub_platform_def)
  have h5: "dlsym stub_platform 1 (table_name stub_build) = Some 100"
    by (simp add: stub_platform_def stub_build_def)
  have h6: "version (table_at stub_platform 100) = SPEC_VERSION"
    by (simp add: stub_platform_def SPEC_VERSION_def)
  have v: "table_at stub_platform 100 = \<lparr>version = 1, pointers = [11, 12]\<rparr>"
    by (simp add: stub_platform_def)
  have d: "deref stub_platform
     (snd (resolve stub_platform stub_build (specific_device 0, stub_queue) stub_state))
     (Image_ref 100) = Some \<lparr>version = 1, pointers = [11, 12]\<rparr>"
    by (simp add: deref_def v)
  from first_resolve_caches_and_returns_image_table [OF h1 h2 h3 h4 h5 h6, of stub_queue, unfolded v] d
  show ?thesis by blast
qed

subsection \<open>No candidate opens\<close>

text \<open>
  What a call does when the device is not cached and none of its candidates opens (the
  list may be empty). It throws \<open>unsupported_device\<close> with the device of the queue for
  \<open>generic_device\<close> in a build without a generic backend, and \<open>backend_not_found\<close> in
  every other case. In that other case the pending error text reaches \<open>std::cerr\<close> only
  when the stream is good and a text is pending: the text of the last failed open, or,
  with an empty list, a text pending from before the call. With an empty list and nothing
  pending the stream leaves its good state.
\<close>

lemma no_library_opens_outcome:
  assumes "tables s key = None"
    and "\<forall>n\<in>set (candidates s key). dlopen P n = None"
  shows "fst (resolve P B (key, q) s) =
           (if \<not> is_generic_device_supported B \<and> key = generic_device
            then Inl (unsupported_device [] [] (get_device q))
            else Inl backend_not_found) \<and>
         new_events s (snd (resolve P B (key, q) s)) =
           map Ev_open (candidates s key) @
           (if \<not> is_generic_device_supported B \<and> key = generic_device then []
            else if cerr_failed s then []
            else if candidates s key = []
                 then (case last_error s of None \<Rightarrow> [] | Some text \<Rightarrow> [Ev_cerr text])
                 else [Ev_cerr (dlopen_error P (last (candidates s key)))]) \<and>
         cerr_failed (snd (resolve P B (key, q) s)) =
           (cerr_failed s \<or>
            \<not> (\<not> is_generic_device_supported B \<and> key = generic_device) \<and>
            candidates s key = [] \<and> last_error s = None)"
proof -
  from assms(1) have r: "resolve P B (key, q) s = add_table P B key q s"
    by (simp add: resolve_def)
  note at = add_table_none_opens [OF assms(2), of B q]
  show ?thesis
  proof (cases "\<not> is_generic_device_supported B \<and> key = generic_device")
    case True
    with at r show ?thesis
      by (simp add: new_events_def)
  next
    case False
    with at r show ?thesis
      by (auto simp: new_events_def)
  qed
qed

text \<open>
  C5. The exceptions are the ones stated, the diagnostic is not always written. Line 112
  hands the result of \<open>dlerror\<close> to \<open>std::cerr\<close> unchecked. On a fresh loader, a call for
  a device without candidates (device 4 of the stub installation, which the registry does
  not list) finds no error text pending: the pointer handed over is null, nothing is
  written, \<open>backend_not_found\<close> is thrown, and the stream is left failed. The next call,
  for device 3, whose only candidate \<open>A\<close> does not open, throws \<open>backend_not_found\<close>
  too, and the text of the failed open is not written either.
\<close>

theorem null_error_text_handed_to_cerr:
  "tables stub_state (specific_device 4) = None \<and>
   candidates stub_state (specific_device 4) = [] \<and>
   last_error stub_state = None \<and>
   \<not> cerr_failed stub_state \<and>
   fst (resolve stub_platform stub_build (specific_device 4, stub_queue) stub_state)
     = Inl backend_not_found \<and>
   new_events stub_state null_written_state = [] \<and>
   cerr_failed null_written_state \<and>
   tables null_written_state (specific_device 3) = None \<and>
   candidates null_written_state (specific_device 3) = [''A''] \<and>
   dlopen stub_platform ''A'' = None \<and>
   fst (resolve stub_platform stub_build (specific_device 3, stub_queue) null_written_state)
     = Inl backend_not_found \<and>
   new_events null_written_state
     (snd (resolve stub_platform stub_build (specific_device 3, stub_queue) null_written_state))
     = [Ev_open ''A'']"
  by (simp add: null_written_state_def candidates_def new_events_def stub_defs)

subsection \<open>A table of another version\<close>

text \<open>
  C6. When a device is not cached, the first of its candidates that opens gives handle
  \<open>h\<close>, the table symbol resolves in \<open>h\<close>, and the version field of the table found is
  not \<open>SPEC_VERSION\<close> (which is 1), the call throws \<open>specification_mismatch\<close>, releases
  \<open>h\<close> (once, as the last thing it does) and leaves \<open>tables\<close> and \<open>handles\<close> as they
  were.
\<close>

theorem version_mismatch_releases_and_caches_nothing:
  assumes "tables s key = None"
    and "candidates s key = pre @ n # post"
    and "\<forall>m\<in>set pre. dlopen P m = None"
    and "dlopen P n = Some h"
    and "dlsym P h (table_name B) = Some t"
    and "version (table_at P t) \<noteq> SPEC_VERSION"
  shows "fst (resolve P B (key, q) s) = Inl specification_mismatch \<and>
    SPEC_VERSION = 1 \<and>
    tables (snd (resolve P B (key, q) s)) = tables s \<and>
    handles (snd (resolve P B (key, q) s)) = handles s \<and>
    new_events s (snd (resolve P B (key, q) s)) =
      map Ev_open pre @ [Ev_open n, Ev_sym h (table_name B), Ev_free h] \<and>
    frees_of (new_events s (snd (resolve P B (key, q) s))) = [h]"
proof -
  from assms(1) have r: "resolve P B (key, q) s = add_table P B key q s"
    by (simp add: resolve_def)
  from add_table_bad_version [OF assms(2-6), of q] show ?thesis
    by (simp add: r new_events_def frees_of_append frees_of_map_open SPEC_VERSION_def)
qed

theorem version_mismatch_releases_and_caches_nothing_witness:
  "fst (resolve stub_platform stub_build (specific_device 1, stub_queue) stub_state)
     = Inl specification_mismatch \<and>
   version (table_at stub_platform 200) = 2 \<and>
   tables (snd (resolve stub_platform stub_build (specific_device 1, stub_queue) stub_state))
     = Map.empty \<and>
   handles (snd (resolve stub_platform stub_build (specific_device 1, stub_queue) stub_state))
     = Map.empty \<and>
   new_events stub_state
     (snd (resolve stub_platform stub_build (specific_device 1, stub_queue) stub_state))
     = [Ev_open ''Old'', Ev_sym 2 ''tbl'', Ev_free 2]"
proof -
  have h1: "tables stub_state (specific_device 1) = None"
    by (simp add: stub_state_def init_state_def)
  have h2: "candidates stub_state (specific_device 1) = [] @ ''Old'' # []"
    by (simp add: candidates_def stub_defs)
  have h3: "\<forall>m\<in>set []. dlopen stub_platform m = None"
    by simp
  have h4: "dlopen stub_platform ''Old'' = Some 2"
    by (simp add: stub_platform_def)
  have h5: "dlsym stub_platform 2 (table_name stub_build) = Some 200"
    by (simp add: stub_platform_def stub_build_def)
  have h6: "version (table_at stub_platform 200) \<noteq> SPEC_VERSION"
    by (simp add: stub_platform_def SPEC_VERSION_def)
  have v: "version (table_at stub_platform 200) = 2"
    by (simp add: stub_platform_def)
  have e: "tables stub_state = Map.empty" "handles stub_state = Map.empty"
    "table_name stub_build = ''tbl''"
    by (simp_all add: stub_state_def init_state_def stub_build_def)
  from version_mismatch_releases_and_caches_nothing [OF h1 h2 h3 h4 h5 h6, of stub_queue] v
  show ?thesis unfolding e by simp
qed

subsection \<open>A library without the table symbol\<close>

text \<open>
  What a call does when the device is not cached, the first of its candidates that opens
  gives handle \<open>h\<close>, and the table symbol does not resolve in \<open>h\<close>: it throws
  \<open>function_not_found\<close>, releases \<open>h\<close> once, as the last thing it does, and leaves both
  maps as they were. The text of the failed \<open>dlsym\<close> is written to \<open>std::cerr\<close> before
  the release when the stream is good, and dropped when it is not.
\<close>

lemma missing_symbol_outcome:
  assumes "tables s key = None"
    and "candidates s key = pre @ n # post"
    and "\<forall>m\<in>set pre. dlopen P m = None"
    and "dlopen P n = Some h"
    and "dlsym P h (table_name B) = None"
  shows "fst (resolve P B (key, q) s) = Inl function_not_found \<and>
    tables (snd (resolve P B (key, q) s)) = tables s \<and>
    handles (snd (resolve P B (key, q) s)) = handles s \<and>
    new_events s (snd (resolve P B (key, q) s)) =
      map Ev_open pre @ [Ev_open n, Ev_sym h (table_name B)] @
      (if cerr_failed s then [] else [Ev_cerr (dlsym_error P h (table_name B))]) @
      [Ev_free h] \<and>
    frees_of (new_events s (snd (resolve P B (key, q) s))) = [h]"
proof -
  from assms(1) have r: "resolve P B (key, q) s = add_table P B key q s"
    by (simp add: resolve_def)
  show ?thesis
    unfolding r add_table_no_symbol [OF assms(2-5)] new_events_def
    by (simp add: frees_of_append frees_of_map_open)
qed

text \<open>
  C7. The exception and the release are the ones stated, the diagnostic is not always
  written. In the state the loader reaches by the call for device 4 above, where the null
  write of line 112 has left \<open>std::cerr\<close> failed, the call for device 2 opens \<open>Bare\<close>,
  does not find the table symbol, throws \<open>function_not_found\<close> and releases the handle,
  and the write of line 120 puts nothing out.
\<close>

theorem missing_symbol_text_dropped_after_null_write:
  "reachable stub_platform stub_build null_written_state \<and>
   cerr_failed null_written_state \<and>
   tables null_written_state (specific_device 2) = None \<and>
   candidates null_written_state (specific_device 2) = [''Bare''] \<and>
   dlopen stub_platform ''Bare'' = Some 3 \<and>
   dlsym stub_platform 3 (table_name stub_build) = None \<and>
   fst (resolve stub_platform stub_build (specific_device 2, stub_queue) null_written_state)
     = Inl function_not_found \<and>
   new_events null_written_state
     (snd (resolve stub_platform stub_build (specific_device 2, stub_queue) null_written_state))
     = [Ev_open ''Bare'', Ev_sym 3 ''tbl'', Ev_free 3]"
proof -
  have r: "reachable stub_platform stub_build null_written_state"
    unfolding null_written_state_def stub_state_def
    by (rule reachable.call [OF reachable.start])
  have e: "cerr_failed null_written_state \<and>
   tables null_written_state (specific_device 2) = None \<and>
   candidates null_written_state (specific_device 2) = [''Bare''] \<and>
   dlopen stub_platform ''Bare'' = Some 3 \<and>
   dlsym stub_platform 3 (table_name stub_build) = None \<and>
   fst (resolve stub_platform stub_build (specific_device 2, stub_queue) null_written_state)
     = Inl function_not_found \<and>
   new_events null_written_state
     (snd (resolve stub_platform stub_build (specific_device 2, stub_queue) null_written_state))
     = [Ev_open ''Bare'', Ev_sym 3 ''tbl'', Ev_free 3]"
    by (simp add: null_written_state_def candidates_def new_events_def stub_defs)
  from r e show ?thesis by blast
qed

subsection \<open>Cached devices\<close>

text \<open>
  C3 as stated, "two consecutive calls for the same device perform exactly one open
  attempt", fails: the first call makes one attempt for each candidate it tries. On the
  stub installation device 0 has the candidates \<open>A\<close> and \<open>B\<close>, of which only \<open>B\<close> opens;
  the first call succeeds, the second is served from the cache, and the two calls have
  made two open attempts.
\<close>

theorem two_calls_open_twice_counterexample:
  "tables stub_state (specific_device 0) = None \<and>
   candidates stub_state (specific_device 0) = [''A'', ''B''] \<and>
   fst (resolve stub_platform stub_build (specific_device 0, stub_queue) stub_state)
     = Inr (Image_ref 100) \<and>
   fst (resolve stub_platform stub_build (specific_device 0, stub_queue)
          (snd (resolve stub_platform stub_build (specific_device 0, stub_queue) stub_state)))
     = Inr (Cache_ref (specific_device 0)) \<and>
   opens_of (trace (snd (resolve stub_platform stub_build (specific_device 0, stub_queue)
          (snd (resolve stub_platform stub_build (specific_device 0, stub_queue) stub_state)))))
     = [''A'', ''B''] \<and>
   length (opens_of (trace (snd (resolve stub_platform stub_build (specific_device 0, stub_queue)
          (snd (resolve stub_platform stub_build (specific_device 0, stub_queue) stub_state))))))
     \<noteq> 1"
  by (simp add: candidates_def stub_defs)

text \<open>
  C3 (as the code has it). When a device has an entry in \<open>tables\<close>, a call for it returns
  the reference to that entry and leaves the whole state as it was: no open attempt, no
  symbol resolution, no write to either map; and a call for any device leaves the entry
  as it is. Hence, when the first of two consecutive calls for a device succeeds, the
  second (with any queue, on any platform) returns the cached entry and changes nothing,
  so the open attempts of the two calls together are those of the first call: the
  candidates up to the first that opens when the device was not cached before, none when
  it was.
\<close>

theorem cached_device_is_served_from_cache:
  "(tables s key = Some t \<longrightarrow>
      resolve P B (key, q) s = (Inr (Cache_ref key), s) \<and>
      deref P s (Cache_ref key) = Some t \<and>
      new_events s (snd (resolve P B (key, q) s)) = [] \<and>
      tables (snd (resolve P B (k, q) s)) key = Some t) \<and>
   (fst (resolve P B (key, q) s) = Inr r \<longrightarrow>
      resolve P' B' (key, q') (snd (resolve P B (key, q) s))
        = (Inr (Cache_ref key), snd (resolve P B (key, q) s)) \<and>
      opens_of (new_events s
          (snd (resolve P' B' (key, q') (snd (resolve P B (key, q) s)))))
        = (if tables s key = None then attempted P (candidates s key) else []))"
proof -
  have one: "resolve P B (key, q) s = (Inr (Cache_ref key), s) \<and>
      deref P s (Cache_ref key) = Some t \<and>
      new_events s (snd (resolve P B (key, q) s)) = [] \<and>
      tables (snd (resolve P B (k, q) s)) key = Some t"
    if c: "tables s key = Some t"
    using resolve_cached [OF c, of P B q] resolve_keeps_entry [OF c, of P B k q] c
    by (simp add: deref_def new_events_def)
  have two: "resolve P' B' (key, q') (snd (resolve P B (key, q) s))
        = (Inr (Cache_ref key), snd (resolve P B (key, q) s)) \<and>
      opens_of (new_events s
          (snd (resolve P' B' (key, q') (snd (resolve P B (key, q) s)))))
        = (if tables s key = None then attempted P (candidates s key) else [])"
    if ok: "fst (resolve P B (key, q) s) = Inr r"
  proof -
    from resolve_success_cached [OF ok]
    obtain u where u: "tables (snd (resolve P B (key, q) s)) key = Some u" by blast
    have second: "resolve P' B' (key, q') (snd (resolve P B (key, q) s))
        = (Inr (Cache_ref key), snd (resolve P B (key, q) s))"
      by (rule resolve_cached [OF u])
    have "opens_of (new_events s (snd (resolve P B (key, q) s)))
        = (if tables s key = None then attempted P (candidates s key) else [])"
    proof (cases "tables s key")
      case None
      then have "resolve P B (key, q) s = add_table P B key q s"
        by (simp add: resolve_def)
      with None show ?thesis
        by (simp add: new_events_def add_table_opens)
    next
      case (Some v)
      then show ?thesis by (simp add: resolve_def new_events_def)
    qed
    with second show ?thesis by simp
  qed
  from one two show ?thesis by blast
qed

theorem cached_device_is_served_from_cache_witness:
  "tables loaded_state (specific_device 0) = Some \<lparr>version = 1, pointers = [11, 12]\<rparr> \<and>
   resolve stub_platform stub_build (specific_device 0, other_queue) loaded_state
     = (Inr (Cache_ref (specific_device 0)), loaded_state) \<and>
   tables (snd (resolve stub_platform stub_build (specific_device 5, other_queue) loaded_state))
     (specific_device 0) = Some \<lparr>version = 1, pointers = [11, 12]\<rparr> \<and>
   fst (resolve stub_platform stub_build (specific_device 0, stub_queue) stub_state)
     = Inr (Image_ref 100) \<and>
   opens_of (new_events stub_state
     (snd (resolve stub_platform stub_build (specific_device 0, other_queue) loaded_state)))
     = [''A'', ''B'']"
proof -
  have c: "tables loaded_state (specific_device 0) = Some \<lparr>version = 1, pointers = [11, 12]\<rparr>"
    by (simp add: loaded_state_def stub_defs)
  have ok: "fst (resolve stub_platform stub_build (specific_device 0, stub_queue) stub_state)
     = Inr (Image_ref 100)"
    by (simp add: stub_defs)
  have u: "tables stub_state (specific_device 0) = None"
    by (simp add: stub_state_def init_state_def)
  have a: "attempted stub_platform (candidates stub_state (specific_device 0)) = [''A'', ''B'']"
    by (simp add: attempted_def candidates_def stub_defs)
  note th1 = cached_device_is_served_from_cache
    [of loaded_state "specific_device 0" "\<lparr>version = 1, pointers = [11, 12]\<rparr>"
        stub_platform stub_build other_queue "specific_device 5"]
  note th2 = cached_device_is_served_from_cache
    [of stub_state "specific_device 0" _ stub_platform stub_build stub_queue _ "Image_ref 100"
        stub_platform stub_build other_queue]
  from th1 c have p1: "resolve stub_platform stub_build (specific_device 0, other_queue) loaded_state
     = (Inr (Cache_ref (specific_device 0)), loaded_state)"
    and p2: "tables (snd (resolve stub_platform stub_build (specific_device 5, other_queue) loaded_state))
     (specific_device 0) = Some \<lparr>version = 1, pointers = [11, 12]\<rparr>"
    by blast+
  from th2 [THEN conjunct2, THEN mp, OF ok, THEN conjunct2] u a have p3: "opens_of (new_events stub_state
     (snd (resolve stub_platform stub_build (specific_device 0, other_queue)
        (snd (resolve stub_platform stub_build (specific_device 0, stub_queue) stub_state)))))
     = [''A'', ''B'']"
    by simp
  from c ok p1 p2 p3 show ?thesis
    unfolding loaded_state_def by blast
qed


subsection \<open>A device the registry does not list\<close>

text \<open>
  C10. When a device is not cached and \<open>libraries[domain_id]\<close> has no entry for it, the
  call gives the same result and the same state as on the registry that lists the device
  with an empty candidate list: it makes no open attempt, and throws
  \<open>unsupported_device\<close> for \<open>generic_device\<close> in a build without a generic backend,
  \<open>backend_not_found\<close> otherwise.
\<close>

theorem unlisted_device_as_empty_list:
  assumes "tables s key = None" and "libraries s key = None"
  shows "resolve P B (key, q) s
           = resolve P B (key, q) (s\<lparr>libraries := (libraries s)(key \<mapsto> [])\<rparr>) \<and>
         opens_of (new_events s (snd (resolve P B (key, q) s))) = [] \<and>
         fst (resolve P B (key, q) s) =
           (if \<not> is_generic_device_supported B \<and> key = generic_device
            then Inl (unsupported_device [] [] (get_device q))
            else Inl backend_not_found)"
proof -
  let ?s' = "s\<lparr>libraries := (libraries s)(key \<mapsto> [])\<rparr>"
  from assms(1) have r: "resolve P B (key, q) s = add_table P B key q s"
    and r': "resolve P B (key, q) ?s' = add_table P B key q ?s'"
    by (simp_all add: resolve_def)
  from assms(2) have c: "candidates s key = []" and c': "candidates ?s' key = []"
    by (simp_all add: candidates_def)
  have n: "\<forall>n\<in>set (candidates s key). dlopen P n = None"
    and n': "\<forall>n\<in>set (candidates ?s' key). dlopen P n = None"
    by (simp_all add: c c')
  have same: "add_table P B key q s = add_table P B key q ?s'"
    unfolding add_table_none_opens [OF n] add_table_none_opens [OF n'] c c'
    by simp
  have opens: "opens_of (new_events s (snd (add_table P B key q s))) = []"
    using add_table_opens [of s P B key q] c
    by (simp add: new_events_def attempted_def)
  have res: "fst (add_table P B key q s) =
           (if \<not> is_generic_device_supported B \<and> key = generic_device
            then Inl (unsupported_device [] [] (get_device q))
            else Inl backend_not_found)"
    unfolding add_table_none_opens [OF n] by simp
  from same opens res show ?thesis
    unfolding r r' by simp
qed

theorem unlisted_device_as_empty_list_witness:
  "libraries stub_state (specific_device 4) = None \<and>
   resolve stub_platform stub_build (specific_device 4, stub_queue) stub_state
     = resolve stub_platform stub_build (specific_device 4, stub_queue)
         (stub_state\<lparr>libraries := (libraries stub_state)(specific_device 4 \<mapsto> [])\<rparr>) \<and>
   opens_of (new_events stub_state
     (snd (resolve stub_platform stub_build (specific_device 4, stub_queue) stub_state))) = [] \<and>
   fst (resolve stub_platform stub_build (specific_device 4, stub_queue) stub_state)
     = Inl backend_not_found"
proof -
  have h1: "tables stub_state (specific_device 4) = None"
    by (simp add: stub_state_def init_state_def)
  have h2: "libraries stub_state (specific_device 4) = None"
    by (simp add: stub_state_def init_state_def stub_libraries_def)
  note th = unlisted_device_as_empty_list [OF h1 h2, of stub_platform stub_build stub_queue]
  from th [THEN conjunct2, THEN conjunct2]
  have f: "fst (resolve stub_platform stub_build (specific_device 4, stub_queue) stub_state)
     = Inl backend_not_found"
    by simp
  from th h2 f show ?thesis by blast
qed

subsection \<open>The queue\<close>

text \<open>
  C9. For every device, state and two queues, the two calls end in the same state (maps,
  registry, pending error text and trace), and they give the same result, unless both
  throw \<open>unsupported_device\<close>, each with the device of its own queue.
\<close>

theorem queue_only_in_unsupported_device:
  "snd (resolve P B (key, q1) s) = snd (resolve P B (key, q2) s) \<and>
   (fst (resolve P B (key, q1) s) = fst (resolve P B (key, q2) s) \<or>
    fst (resolve P B (key, q1) s) = Inl (unsupported_device [] [] (get_device q1)) \<and>
    fst (resolve P B (key, q2) s) = Inl (unsupported_device [] [] (get_device q2)))"
proof (cases "tables s key")
  case (Some t)
  then show ?thesis by (simp add: resolve_def)
next
  case None
  then have r: "\<And>q. resolve P B (key, q) s = add_table P B key q s"
    by (simp add: resolve_def)
  consider (none) "\<forall>n\<in>set (candidates s key). dlopen P n = None"
    | (some) pre n post h where "candidates s key = pre @ n # post"
        "\<forall>m\<in>set pre. dlopen P m = None" "dlopen P n = Some h"
    using open_candidates_cases [of "candidates s key" P] by blast
  then show ?thesis
  proof cases
    case none
    show ?thesis
      unfolding r add_table_none_opens [OF none]
      by (cases "\<not> is_generic_device_supported B \<and> key = generic_device") simp_all
  next
    case some
    show ?thesis
    proof (cases "dlsym P h (table_name B)")
      case None
      show ?thesis
        unfolding r add_table_no_symbol [OF some None] by simp
    next
      case (Some t)
      show ?thesis
      proof (cases "version (table_at P t) = SPEC_VERSION")
        case True
        show ?thesis
          unfolding r add_table_success [OF some Some True] by simp
      next
        case False
        show ?thesis
          unfolding r add_table_bad_version [OF some Some False] by simp
      qed
    qed
  qed
qed

theorem queue_only_in_unsupported_device_witness:
  "fst (resolve stub_platform stub_build (generic_device, stub_queue) stub_state)
     = Inl (unsupported_device [] [] 42) \<and>
   fst (resolve stub_platform stub_build (generic_device, other_queue) stub_state)
     = Inl (unsupported_device [] [] 43) \<and>
   snd (resolve stub_platform stub_build (generic_device, stub_queue) stub_state)
     = snd (resolve stub_platform stub_build (generic_device, other_queue) stub_state) \<and>
   snd (resolve stub_platform stub_build (specific_device 0, stub_queue) stub_state)
     = snd (resolve stub_platform stub_build (specific_device 0, other_queue) stub_state)"
proof -
  have a: "fst (resolve stub_platform stub_build (generic_device, stub_queue) stub_state)
     = Inl (unsupported_device [] [] 42)"
    and b: "fst (resolve stub_platform stub_build (generic_device, other_queue) stub_state)
     = Inl (unsupported_device [] [] 43)"
    by (simp_all add: stub_defs)
  from queue_only_in_unsupported_device
         [of stub_platform stub_build generic_device stub_queue stub_state other_queue]
       queue_only_in_unsupported_device
         [of stub_platform stub_build "specific_device 0" stub_queue stub_state other_queue]
       a b
  show ?thesis by blast
qed


subsection \<open>Tables and their handles\<close>

text \<open>
  C8. In every state a loader reaches (after construction and after every call of
  \<open>operator[]\<close>, failed or not), each device with a table in \<open>tables\<close> has in \<open>handles\<close>
  the handle of the library that exports this table, and that handle has never been
  released. In the trace, every store into \<open>tables\<close> comes after the store of the
  device's handle into \<open>handles\<close>.
\<close>

theorem cached_table_has_its_handle:
  assumes "reachable P B s" and "tables s d = Some t"
  shows "(\<exists>h a. handles s d = Some h \<and> dlsym P h (table_name B) = Some a \<and>
            table_at P a = t \<and> h \<notin> set (frees_of (trace s))) \<and>
         handle_before_table {} (trace s)"
proof -
  from reachable_cache_inv [OF assms(1)] have inv: "cache_inv P B s" .
  from inv assms(2) obtain h a where ha: "handles s d = Some h"
      "dlsym P h (table_name B) = Some a" "table_at P a = t" "version t = SPEC_VERSION"
    unfolding cache_inv_def by blast
  then have "usable_library P B h"
    by (simp add: usable_library_def)
  with inv have "h \<notin> set (frees_of (trace s))"
    unfolding cache_inv_def by blast
  with ha inv show ?thesis
    unfolding cache_inv_def by blast
qed

theorem cached_table_has_its_handle_witness:
  "reachable stub_platform stub_build loaded_state \<and>
   tables loaded_state (specific_device 0) = Some \<lparr>version = 1, pointers = [11, 12]\<rparr> \<and>
   handles loaded_state (specific_device 0) = Some 1 \<and>
   trace loaded_state = [Ev_open ''A'', Ev_open ''B'', Ev_sym 1 ''tbl'',
     Ev_handle_stored (specific_device 0) 1, Ev_table_stored (specific_device 0)] \<and>
   handle_before_table {} (trace loaded_state)"
proof -
  have r: "reachable stub_platform stub_build loaded_state"
    unfolding loaded_state_def stub_state_def
    by (rule reachable.call [OF reachable.start])
  have c: "tables loaded_state (specific_device 0) = Some \<lparr>version = 1, pointers = [11, 12]\<rparr>"
    by (simp add: loaded_state_def stub_defs)
  have h: "handles loaded_state (specific_device 0) = Some 1"
    by (simp add: loaded_state_def stub_defs)
  have t: "trace loaded_state = [Ev_open ''A'', Ev_open ''B'', Ev_sym 1 ''tbl'',
     Ev_handle_stored (specific_device 0) 1, Ev_table_stored (specific_device 0)]"
    by (simp add: loaded_state_def stub_defs)
  from cached_table_has_its_handle [OF r c]
  have "handle_before_table {} (trace loaded_state)" by blast
  with r c h t show ?thesis by blast
qed


end
